theory Spec2Isabelle
  imports Main "HOL-Library.Multiset" "HOL-Library.Sublist"
begin

section \<open>Patient appointments and the greedy scheduler of app.py\<close>

text \<open>
  A patient is the Python tuple \<^verbatim>\<open>(name, start, end)\<close>. Python integers are
  unbounded, so the two times are of type \<open>int\<close>.
\<close>

type_synonym patient = "string \<times> int \<times> int"

definition p_name :: "patient \<Rightarrow> string" where
  "p_name p = fst p"

definition p_start :: "patient \<Rightarrow> int" where
  "p_start p = fst (snd p)"

definition p_end :: "patient \<Rightarrow> int" where
  "p_end p = snd (snd p)"

text \<open>
  \<^verbatim>\<open>sorted(patients_list, key=lambda x: x[2])\<close> builds a new list, sorted by the third
  component with a stable sort. \<open>sort_key\<close> is the stable insertion sort of the list
  library; a stable sort by a key is determined by its specification, so the two agree.
\<close>

definition sorted_patients :: "patient list \<Rightarrow> patient list" where
  "sorted_patients patients_list = sort_key (\<lambda>x. snd (snd x)) patients_list"

text \<open>
  The body of the \<^verbatim>\<open>for\<close> loop, on the pair of the two loop variables
  \<^verbatim>\<open>scheduled\<close> and \<^verbatim>\<open>last_end\<close>.
\<close>

fun loop_body :: "patient \<Rightarrow> patient list \<times> int \<Rightarrow> patient list \<times> int" where
  "loop_body (name, start, end) (scheduled, last_end) =
     (if start \<ge> last_end then (scheduled @ [(name, start, end)], end)
      else (scheduled, last_end))"

definition greedy_schedule :: "patient list \<Rightarrow> patient list" where
  "greedy_schedule patients_list =
     fst (fold loop_body (sorted_patients patients_list) ([], - 1))"

subsection \<open>The HTTP handlers, on the collection as explicit state\<close>

text \<open>
  A response is the JSON body given to \<^verbatim>\<open>jsonify\<close> and the HTTP status. The
  module-level list \<^verbatim>\<open>patients\<close> is passed in and, where a handler changes it,
  returned.
\<close>

datatype body =
    Error string
  | Unhandled string
  | Status string
  | Generated string nat
  | Patient_list "patient list"

type_synonym response = "body \<times> nat"

definition schedule :: "patient list \<Rightarrow> response" where
  "schedule patients =
     (if patients = [] then (Error ''No patients'', 400)
      else (Patient_list (greedy_schedule patients), 200))"

definition get_patients :: "patient list \<Rightarrow> response" where
  "get_patients patients = (Patient_list patients, 200)"

definition clear_patients :: "patient list \<Rightarrow> response \<times> patient list" where
  "clear_patients patients = ((Status ''cleared'', 200), [])"

text \<open>
  A Python float: a finite one is \<open>m * 2 ^ e\<close> for two integers (every finite double has
  this form), the others are the infinities and the NaNs, which Python's JSON parser
  accepts.
\<close>

datatype pyfloat =
    Finite int int
  | Non_finite

text \<open>
  A JSON value after parsing. The handler only tells text from everything else and
  hands the values of \<^verbatim>\<open>start\<close> and \<^verbatim>\<open>end\<close> to Python's \<^verbatim>\<open>int\<close>; lists and
  objects are kept without their content.
\<close>

datatype jvalue =
    JNull
  | JBool bool
  | JInt int
  | JFloat pyfloat
  | JStr string
  | JList
  | JDict




text \<open>
  The value of \<^verbatim>\<open>request.json\<close>: a JSON object as a dictionary, a value that
  Python takes for false (replaced by the empty dictionary in
  \<^verbatim>\<open>request.json or {}\<close>), or any other value, which has no \<^verbatim>\<open>get\<close>.
\<close>

datatype request_json =
    Dict "string \<rightharpoonup> jvalue"
  | Falsy_value
  | Truthy_non_dict

text \<open>\<^verbatim>\<open>str.isspace\<close> on the characters below 256, and \<^verbatim>\<open>str.strip()\<close>.\<close>

definition py_isspace :: "char \<Rightarrow> bool" where
  "py_isspace c \<longleftrightarrow>
     (of_char c :: nat) \<in> set [9, 10, 11, 12, 13, 28, 29, 30, 31, 32, 133, 160]"

definition strip :: "string \<Rightarrow> string" where
  "strip s = rev (dropWhile py_isspace (rev (dropWhile py_isspace s)))"

text \<open>\<^verbatim>\<open>data.get(key, default)\<close>; \<^verbatim>\<open>data.get(key)\<close> has the default \<^verbatim>\<open>None\<close>.\<close>

definition dict_get :: "(string \<rightharpoonup> jvalue) \<Rightarrow> string \<Rightarrow> jvalue \<Rightarrow> jvalue" where
  "dict_get data key dflt = (case data key of None \<Rightarrow> dflt | Some v \<Rightarrow> v)"

text \<open>
  \<^verbatim>\<open>add_patient\<close>. Python's built-in \<^verbatim>\<open>int\<close> is the parameter \<open>to_int\<close> (the
  function \<open>py_int\<close> above, once the conversion of text is given), with \<open>None\<close>
  where it raises; every exception it raises is caught by
  \<^verbatim>\<open>except Exception\<close>. The \<^verbatim>\<open>AttributeError\<close> of \<^verbatim>\<open>.get\<close> on a value that is
  not a dictionary and of \<^verbatim>\<open>.strip()\<close> on a name that is not text is raised before
  the \<^verbatim>\<open>try\<close> and not caught: the server answers 500.
\<close>

definition add_patient ::
  "(jvalue \<Rightarrow> int option) \<Rightarrow> request_json \<Rightarrow> patient list \<Rightarrow> response \<times> patient list" where
  "add_patient to_int json patients =
     (case (case json of Dict d \<Rightarrow> Some d | Falsy_value \<Rightarrow> Some Map.empty
                       | Truthy_non_dict \<Rightarrow> None) of
        None \<Rightarrow> ((Unhandled ''AttributeError'', 500), patients)
      | Some data \<Rightarrow>
          (case dict_get data ''name'' (JStr []) of
             JStr raw_name \<Rightarrow>
               (let name = strip raw_name in
                case to_int (dict_get data ''start'' JNull) of
                  None \<Rightarrow> ((Error ''Start and End must be integers'', 400), patients)
                | Some start \<Rightarrow>
                    (case to_int (dict_get data ''end'' JNull) of
                       None \<Rightarrow> ((Error ''Start and End must be integers'', 400), patients)
                     | Some end \<Rightarrow>
                         if name = [] \<or> start \<ge> end
                         then ((Error ''Invalid name or time values'', 400), patients)
                         else ((Status ''ok'', 201), patients @ [(name, start, end)])))
           | _ \<Rightarrow> ((Unhandled ''AttributeError'', 500), patients)))"

subsection \<open>Random demo data\<close>

text \<open>
  The state of the \<^verbatim>\<open>random\<close> module is a stream of raw draws. \<^verbatim>\<open>random.choice\<close>
  returns an element of its list and \<^verbatim>\<open>random.randint(a, b)\<close> an integer from \<open>a\<close>
  to \<open>b\<close>, both ends included; every outcome of the two is the image of some raw draw.
\<close>

type_synonym rng = "nat \<Rightarrow> nat"

definition choice :: "'a list \<Rightarrow> rng \<Rightarrow> 'a \<times> rng" where
  "choice xs g = (xs ! (g 0 mod length xs), \<lambda>n. g (Suc n))"

definition randint :: "int \<Rightarrow> int \<Rightarrow> rng \<Rightarrow> int \<times> rng" where
  "randint a b g = (a + int (g 0 mod nat (b - a + 1)), \<lambda>n. g (Suc n))"

text \<open>\<^verbatim>\<open>str\<close> on a natural number.\<close>

definition digit_char :: "nat \<Rightarrow> char" where
  "digit_char d = char_of (48 + d)"

fun str :: "nat \<Rightarrow> string" where
  "str n = (if n < 10 then [digit_char n] else str (n div 10) @ [digit_char (n mod 10)])"

declare str.simps [simp del]

definition names :: "string list" where
  "names = [''Ram'', ''Shyam'', ''Sita'', ''Gita'', ''Aman'', ''Pooja'', ''Vikas'', ''Rani'']"

definition generate_one :: "nat \<Rightarrow> patient list \<times> rng \<Rightarrow> patient list \<times> rng" where
  "generate_one i = (\<lambda>(patients, g).
     (let (chosen, g1) = choice names g;
          name = chosen @ str (i + 1);
          (start, g2) = randint 1 8 g1;
          (delta, g3) = randint 1 4 g2;
          end = start + delta
      in (patients @ [(name, start, end)], g3)))"

definition auto_generate :: "rng \<Rightarrow> patient list \<Rightarrow> response \<times> patient list \<times> rng" where
  "auto_generate g patients =
     (let (patients', g') = fold generate_one [0..<8] ([], g)
      in ((Generated ''generated'' (length patients'), 200), patients', g'))"

subsection \<open>The scheduler on a store of list objects\<close>

text \<open>
  Python lists are objects: the argument of \<^verbatim>\<open>greedy_schedule\<close> is a reference to the
  caller's list. The store holds the list objects at their addresses (the positions of
  \<open>heap\<close>), and the module-level name \<^verbatim>\<open>patients\<close> is bound to one of them.
  \<^verbatim>\<open>sorted\<close> allocates a new list, \<^verbatim>\<open>[]\<close> another, and \<^verbatim>\<open>append\<close> writes to the
  object it is called on. The loop never writes to \<^verbatim>\<open>sorted_patients\<close>, so it runs over
  the value that object has when the loop starts.
\<close>

record py_state =
  heap :: "patient list list"
  patients_var :: nat

definition alloc :: "patient list \<Rightarrow> py_state \<Rightarrow> nat \<times> py_state" where
  "alloc v s = (length (heap s), s\<lparr>heap := heap s @ [v]\<rparr>)"

definition append_to :: "nat \<Rightarrow> patient \<Rightarrow> py_state \<Rightarrow> py_state" where
  "append_to a x s = s\<lparr>heap := (heap s)[a := heap s ! a @ [x]]\<rparr>"

fun loop_body_st :: "nat \<Rightarrow> patient \<Rightarrow> py_state \<times> int \<Rightarrow> py_state \<times> int" where
  "loop_body_st scheduled (name, start, end) (s, last_end) =
     (if start \<ge> last_end then (append_to scheduled (name, start, end) s, end)
      else (s, last_end))"

definition greedy_schedule_st :: "nat \<Rightarrow> py_state \<Rightarrow> nat \<times> py_state" where
  "greedy_schedule_st patients_list s =
     (let (sorted_ref, s1) = alloc (sort_key (\<lambda>x. snd (snd x)) (heap s ! patients_list)) s;
          (scheduled, s2) = alloc [] s1;
          (s3, last_end) = fold (loop_body_st scheduled) (heap s2 ! sorted_ref) (s2, - 1)
      in (scheduled, s3))"

subsection \<open>Schedules\<close>

text \<open>
  Two appointments overlap when each starts before the other ends; a list of
  appointments is a valid schedule when no two of its entries overlap.
\<close>

definition overlap :: "patient \<Rightarrow> patient \<Rightarrow> bool" where
  "overlap p q \<longleftrightarrow> p_start p < p_end q \<and> p_start q < p_end p"

fun non_overlapping :: "patient list \<Rightarrow> bool" where
  "non_overlapping [] = True"
| "non_overlapping (p # ps) = (list_all (\<lambda>q. \<not> overlap p q) ps \<and> non_overlapping ps)"

text \<open>The entries of a list with the given start and end.\<close>

definition same_slot :: "int \<Rightarrow> int \<Rightarrow> patient \<Rightarrow> bool" where
  "same_slot s e p \<longleftrightarrow> p_start p = s \<and> p_end p = e"

text \<open>The range of the patients that \<^verbatim>\<open>auto_generate\<close> builds.\<close>

definition generated_ok :: "patient \<Rightarrow> bool" where
  "generated_ok p \<longleftrightarrow>
     1 \<le> p_start p \<and> p_start p \<le> 8 \<and> p_start p + 1 \<le> p_end p \<and> p_end p \<le> p_start p + 4"


section \<open>The selection loop as a recursion\<close>

text \<open>
  \<open>select last_end ps\<close> is the list of patients the loop appends when it starts on
  \<open>ps\<close> with the given \<open>last_end\<close>.
\<close>

fun select :: "int \<Rightarrow> patient list \<Rightarrow> patient list" where
  "select last_end [] = []"
| "select last_end (p # ps) =
     (if p_start p \<ge> last_end then p # select (p_end p) ps else select last_end ps)"

lemma fold_loop_body:
  "fst (fold loop_body ps (scheduled, last_end)) = scheduled @ select last_end ps"
proof (induction ps arbitrary: scheduled last_end)
  case Nil
  show ?case by simp
next
  case (Cons p ps)
  obtain name start "end" where p: "p = (name, start, end)"
    by (cases p) auto
  show ?case
    by (simp add: p Cons.IH p_start_def p_end_def)
qed

lemma greedy_schedule_select:
  "greedy_schedule xs = select (- 1) (sorted_patients xs)"
  by (simp add: greedy_schedule_def fold_loop_body)

subsection \<open>The sort and the selection\<close>

lemma sorted_patients_sorted: "sorted (map p_end (sorted_patients xs))"
proof -
  have "p_end = (\<lambda>x. snd (snd x))" by (simp add: fun_eq_iff p_end_def)
  then show ?thesis by (simp add: sorted_patients_def)
qed

lemma sorted_patients_mset: "mset (sorted_patients xs) = mset xs"
  by (simp add: sorted_patients_def)

lemma sorted_patients_stable:
  "filter (\<lambda>p. p_end p = k) (sorted_patients xs) = filter (\<lambda>p. p_end p = k) xs"
proof -
  have "p_end = (\<lambda>x. snd (snd x))" by (simp add: fun_eq_iff p_end_def)
  then show ?thesis by (simp add: sorted_patients_def sort_key_stable)
qed

lemma sorted_patients_id: "sorted (map p_end xs) \<Longrightarrow> sorted_patients xs = xs"
proof -
  assume s: "sorted (map p_end xs)"
  have "p_end = (\<lambda>x. snd (snd x))" by (simp add: fun_eq_iff p_end_def)
  with s show ?thesis by (simp add: sorted_patients_def sort_key_id_if_sorted)
qed

lemma subseq_select: "subseq (select l ps) ps"
  by (induction ps arbitrary: l) auto

lemma set_select: "q \<in> set (select l ps) \<Longrightarrow> q \<in> set ps"
  by (induction ps arbitrary: l) (auto split: if_splits)

lemma select_lower_bound:
  "sorted (map p_end ps) \<Longrightarrow> \<forall>p\<in>set ps. e \<le> p_end p \<Longrightarrow> q \<in> set (select e ps) \<Longrightarrow> e \<le> p_start q"
proof (induction ps arbitrary: e)
  case Nil
  then show ?case by simp
next
  case (Cons p ps)
  show ?case
  proof (cases "e \<le> p_start p")
    case True
    with Cons.prems(3) have "q = p \<or> q \<in> set (select (p_end p) ps)" by simp
    then show ?thesis
    proof
      assume "q = p" with True show ?thesis by simp
    next
      assume q: "q \<in> set (select (p_end p) ps)"
      have "p_end p \<le> p_start q"
        using Cons.IH [of "p_end p"] Cons.prems(1) q by simp
      moreover have "e \<le> p_end p" using Cons.prems(2) by simp
      ultimately show ?thesis by simp
    qed
  next
    case False
    with Cons.prems(3) have "q \<in> set (select e ps)" by simp
    then show ?thesis using Cons.IH [of e] Cons.prems(1,2) by simp
  qed
qed

lemma select_chain:
  "sorted (map p_end ps) \<Longrightarrow>
   sorted_wrt (\<lambda>a b. p_end a \<le> p_start b \<and> p_end a \<le> p_end b) (select l ps)"
proof (induction ps arbitrary: l)
  case Nil
  then show ?case by simp
next
  case (Cons p ps)
  have s: "sorted (map p_end ps)" and le: "\<forall>q\<in>set ps. p_end p \<le> p_end q"
    using Cons.prems by simp_all
  have "\<forall>q\<in>set (select (p_end p) ps). p_end p \<le> p_start q \<and> p_end p \<le> p_end q"
    using select_lower_bound [OF s le] le set_select by blast
  then show ?case using Cons.IH [OF s] by simp
qed

lemma select_idem: "select l (select l ps) = select l ps"
  by (induction ps arbitrary: l) auto


lemma mset_select: "mset (select l ps) \<subseteq># mset ps"
proof (induction ps arbitrary: l)
  case Nil
  show ?case by simp
next
  case (Cons p ps)
  have "mset (select l ps) \<subseteq># add_mset p (mset ps)" for l
    using Cons.IH [of l] by (meson mset_subset_eq_add_mset_cancel subset_mset.order_trans
        mset_subset_eq_add_right multi_psub_of_add_self subset_mset.less_imp_le)
  then show ?case using Cons.IH by simp
qed

lemma select_above:
  "\<forall>y\<in>set ys. s < p_end y \<Longrightarrow> s < l \<Longrightarrow> q \<in> set (select l ys) \<Longrightarrow> s < p_start q"
proof (induction ys arbitrary: l)
  case Nil
  then show ?case by simp
next
  case (Cons y ys)
  show ?case
  proof (cases "l \<le> p_start y")
    case True
    with Cons.prems(3) have "q = y \<or> q \<in> set (select (p_end y) ys)" by simp
    then show ?thesis
    proof
      assume "q = y" with True Cons.prems(2) show ?thesis by simp
    next
      assume "q \<in> set (select (p_end y) ys)"
      then show ?thesis using Cons.IH [of "p_end y"] Cons.prems(1) by simp
    qed
  next
    case False
    with Cons.prems(3) have "q \<in> set (select l ys)" by simp
    then show ?thesis using Cons.IH [of l] Cons.prems(1,2) by simp
  qed
qed

lemma select_no_slot:
  assumes "\<forall>y\<in>set ys. s < p_end y" and "s < l"
  shows "filter (same_slot s e) (select l ys) = []"
proof -
  have "\<not> same_slot s e q" if "q \<in> set (select l ys)" for q
    using select_above [OF assms that] by (simp add: same_slot_def)
  then show ?thesis by (simp add: filter_empty_conv)
qed

lemma select_first_slot:
  "sorted (map p_end ys) \<Longrightarrow> s < e \<Longrightarrow>
   filter (same_slot s e) (select l ys) = [] \<or>
   filter (same_slot s e) (select l ys) = take 1 (filter (same_slot s e) ys)"
proof (induction ys arbitrary: l)
  case Nil
  then show ?case by simp
next
  case (Cons y ys)
  have srt: "sorted (map p_end ys)" and le: "\<forall>q\<in>set ys. p_end y \<le> p_end q"
    using Cons.prems(1) by simp_all
  show ?case
  proof (cases "same_slot s e y")
    case True
    then have y: "p_start y = s" "p_end y = e" by (simp_all add: same_slot_def)
    have later: "\<forall>q\<in>set ys. s < p_end q"
      using le y(2) Cons.prems(2) by fastforce
    show ?thesis
    proof (cases "l \<le> p_start y")
      case accepted: True
      have "filter (same_slot s e) (select e ys) = []"
        using select_no_slot [OF later Cons.prems(2)] .
      with True accepted y show ?thesis by simp
    next
      case False
      then have "s < l" using y(1) by simp
      then have "filter (same_slot s e) (select l ys) = []"
        using select_no_slot [OF later] by blast
      with False show ?thesis by simp
    qed
  next
    case False
    then show ?thesis using Cons.IH [OF srt Cons.prems(2)] by simp
  qed
qed

lemma sorted_patients_slot:
  "filter (same_slot s e) (sorted_patients xs) = filter (same_slot s e) xs"
proof -
  have "filter (same_slot s e) zs = filter (same_slot s e) (filter (\<lambda>p. p_end p = e) zs)" for zs
    by (auto simp: same_slot_def intro: filter_cong)
  then show ?thesis
    by (metis sorted_patients_stable)
qed

subsection \<open>Random draws\<close>

lemma randint_range:
  "a \<le> b \<Longrightarrow> a \<le> fst (randint a b g) \<and> fst (randint a b g) \<le> b"
proof -
  assume ab: "a \<le> b"
  then have pos: "0 < nat (b - a + 1)" by simp
  have "g 0 mod nat (b - a + 1) < nat (b - a + 1)"
    using pos by (rule mod_less_divisor)
  then have "int (g 0 mod nat (b - a + 1)) < b - a + 1"
    using ab by linarith
  then show ?thesis by (simp add: randint_def)
qed

lemma generate_one_step:
  "\<exists>p g'. generate_one i (acc, g) = (acc @ [p], g') \<and> generated_ok p"
proof -
  obtain chosen g1 where c: "choice names g = (chosen, g1)" by (cases "choice names g")
  obtain start g2 where s: "randint 1 8 g1 = (start, g2)" by (cases "randint 1 8 g1")
  obtain delta g3 where d: "randint 1 4 g2 = (delta, g3)" by (cases "randint 1 4 g2")
  have "1 \<le> start \<and> start \<le> 8"
    using randint_range [of 1 8 g1] s by simp
  moreover have "1 \<le> delta \<and> delta \<le> 4"
    using randint_range [of 1 4 g2] d by simp
  ultimately have "generated_ok (chosen @ str (i + 1), start, start + delta)"
    by (simp add: generated_ok_def p_start_def p_end_def)
  moreover have "generate_one i (acc, g) = (acc @ [(chosen @ str (i + 1), start, start + delta)], g3)"
    by (simp add: generate_one_def c s d)
  ultimately show ?thesis by blast
qed

lemma fold_generate_one:
  "\<forall>p\<in>set acc. generated_ok p \<Longrightarrow>
   length (fst (fold generate_one is (acc, g))) = length acc + length is
   \<and> (\<forall>p\<in>set (fst (fold generate_one is (acc, g))). generated_ok p)"
proof (induction "is" arbitrary: acc g)
  case Nil
  then show ?case by simp
next
  case (Cons i "is")
  obtain p g' where step: "generate_one i (acc, g) = (acc @ [p], g')" and ok: "generated_ok p"
    using generate_one_step by blast
  have "\<forall>q\<in>set (acc @ [p]). generated_ok q"
    using Cons.prems ok by simp
  from Cons.IH [OF this, of g'] show ?case
    by (simp add: step)
qed

subsection \<open>Requests\<close>



subsection \<open>The loop on the store\<close>

lemma fold_loop_body_st:
  "scheduled < length (heap s) \<Longrightarrow>
   fst (fold (loop_body_st scheduled) ps (s, last_end))
     = s\<lparr>heap := (heap s)[scheduled := heap s ! scheduled @ select last_end ps]\<rparr>"
proof (induction ps arbitrary: s last_end)
  case Nil
  show ?case by simp
next
  case (Cons p ps)
  obtain name start "end" where p: "p = (name, start, end)"
    by (cases p) auto
  show ?case
  proof (cases "last_end \<le> start")
    case True
    let ?s = "append_to scheduled p s"
    have len: "scheduled < length (heap ?s)"
      using Cons.prems by (simp add: append_to_def)
    have "fst (fold (loop_body_st scheduled) (p # ps) (s, last_end))
        = fst (fold (loop_body_st scheduled) ps (?s, end))"
      using True by (simp add: p)
    also have "\<dots> = ?s\<lparr>heap := (heap ?s)[scheduled := heap ?s ! scheduled @ select end ps]\<rparr>"
      by (rule Cons.IH [OF len])
    also have "\<dots> = s\<lparr>heap := (heap s)[scheduled := heap s ! scheduled @ select last_end (p # ps)]\<rparr>"
      using True Cons.prems by (simp add: append_to_def p p_start_def p_end_def)
    finally show ?thesis .
  next
    case False
    then show ?thesis
      using Cons.IH [OF Cons.prems, of last_end] by (simp add: p p_start_def)
  qed
qed

lemma greedy_schedule_st_eq:
  "greedy_schedule_st a s
     = (Suc (length (heap s)),
        s\<lparr>heap := heap s @ [sorted_patients (heap s ! a), greedy_schedule (heap s ! a)]\<rparr>)"
proof -
  let ?sorted = "sorted_patients (heap s ! a)"
  let ?s2 = "s\<lparr>heap := heap s @ [?sorted, []]\<rparr>"
  have len: "Suc (length (heap s)) < length (heap ?s2)" by simp
  have "fst (fold (loop_body_st (Suc (length (heap s)))) ?sorted (?s2, - 1))
      = s\<lparr>heap := heap s @ [?sorted, select (- 1) ?sorted]\<rparr>"
    by (simp only: fold_loop_body_st [OF len]) (simp add: nth_append list_update_append)
  then show ?thesis
    by (cases "fold (loop_body_st (Suc (length (heap s)))) ?sorted (?s2, - 1)")
      (simp add: greedy_schedule_st_def alloc_def sorted_patients_def [symmetric]
        greedy_schedule_select nth_append)
qed

subsection \<open>Valid schedules\<close>

lemma non_overlapping_filter:
  "non_overlapping zs \<Longrightarrow> non_overlapping (filter Q zs)"
  by (induction zs) (auto simp: list_all_iff)

lemma at_most_one_across:
  "non_overlapping zs \<Longrightarrow> \<forall>z\<in>set zs. P z \<longrightarrow> p_start z < c \<and> c \<le> p_end z \<Longrightarrow>
   length (filter P zs) \<le> 1"
proof (induction zs)
  case Nil
  show ?case by simp
next
  case (Cons z zs)
  show ?case
  proof (cases "P z")
    case True
    have "\<not> P q" if "q \<in> set zs" for q
    proof
      assume "P q"
      then have "p_start q < c \<and> c \<le> p_end q" using Cons.prems(2) that by simp
      moreover have "p_start z < c \<and> c \<le> p_end z" using Cons.prems(2) True by simp
      ultimately have "overlap z q" by (simp add: overlap_def)
      then show False using Cons.prems(1) that by (simp add: list_all_iff)
    qed
    then have "filter P zs = []" by (simp add: filter_empty_conv)
    with True show ?thesis by simp
  next
    case False
    then show ?thesis using Cons by simp
  qed
qed

lemma mset_subset_drop:
  "mset zs \<subseteq># add_mset y M \<Longrightarrow> y \<notin> set zs \<Longrightarrow> mset zs \<subseteq># M"
  by (metis Diff_eq_empty_iff_mset minus_add_mset_if_not_in_lhs set_mset_mset)

lemma select_optimal:
  "sorted (map p_end ys) \<Longrightarrow> \<forall>y\<in>set ys. p_start y < p_end y \<Longrightarrow>
   mset zs \<subseteq># mset ys \<Longrightarrow> non_overlapping zs \<Longrightarrow> \<forall>z\<in>set zs. l \<le> p_start z \<Longrightarrow>
   length zs \<le> length (select l ys)"
proof (induction ys arbitrary: l zs)
  case Nil
  then show ?case by simp
next
  case (Cons y ys)
  have srt: "sorted (map p_end ys)" and le: "\<forall>q\<in>set ys. p_end y \<le> p_end q"
    using Cons.prems(1) by simp_all
  have valid: "\<forall>q\<in>set ys. p_start q < p_end q" and valid_y: "p_start y < p_end y"
    using Cons.prems(2) by simp_all
  have sub: "mset zs \<subseteq># add_mset y (mset ys)"
    using Cons.prems(3) by simp
  have "set zs \<subseteq> set (y # ys)"
    using Cons.prems(3) set_mset_mono by fastforce
  then have ends: "\<forall>z\<in>set zs. p_end y \<le> p_end z"
    using le by auto
  show ?case
  proof (cases "l \<le> p_start y")
    case True
    let ?P = "\<lambda>z. p_start z < p_end y"
    let ?zs = "filter (\<lambda>z. \<not> p_start z < p_end y) zs"
    have one: "length (filter ?P zs) \<le> 1"
      using at_most_one_across [OF Cons.prems(4), of ?P "p_end y"] ends by simp
    have "y \<notin> set ?zs" using valid_y by simp
    moreover have "mset ?zs \<subseteq># add_mset y (mset ys)"
      using sub by (metis mset_filter multiset_filter_subset subset_mset.order_trans)
    ultimately have sub': "mset ?zs \<subseteq># mset ys"
      by (rule mset_subset_drop [rotated])
    have "length ?zs \<le> length (select (p_end y) ys)"
      using Cons.IH [OF srt valid sub' non_overlapping_filter [OF Cons.prems(4)], of "p_end y"]
      by simp
    moreover have "length zs = length (filter ?P zs) + length ?zs"
      using sum_length_filter_compl [of ?P zs] by simp
    ultimately show ?thesis using one True by simp
  next
    case False
    then have "y \<notin> set zs" using Cons.prems(5) by auto
    then have "mset zs \<subseteq># mset ys"
      using sub by (rule mset_subset_drop [rotated])
    then show ?thesis
      using Cons.IH [OF srt valid _ Cons.prems(4,5)] False by simp
  qed
qed

lemma chain_non_overlapping:
  "sorted_wrt (\<lambda>a b. p_end a \<le> p_start b \<and> p_end a \<le> p_end b) zs \<Longrightarrow> non_overlapping zs"
  by (induction zs) (auto simp: list_all_iff overlap_def)

text \<open>
  Earliest-end-first selection is optimal where the sentinel is below every start: if
  every patient of the input has \<open>-1 \<le> start < end\<close>, the output is a valid schedule and
  no valid schedule drawn from the input has more entries.
\<close>

lemma greedy_schedule_optimal:
  assumes "\<forall>p\<in>set xs. - 1 \<le> p_start p \<and> p_start p < p_end p"
    and "mset zs \<subseteq># mset xs" and "non_overlapping zs"
  shows "non_overlapping (greedy_schedule xs) \<and> length zs \<le> length (greedy_schedule xs)"
proof -
  have valid: "\<forall>y\<in>set (sorted_patients xs). p_start y < p_end y"
    using assms(1) by (metis sorted_patients_mset set_mset_mset)
  have sub: "mset zs \<subseteq># mset (sorted_patients xs)"
    using assms(2) by (simp only: sorted_patients_mset)
  have "set zs \<subseteq> set xs"
    using assms(2) set_mset_mono by fastforce
  then have low: "\<forall>z\<in>set zs. - 1 \<le> p_start z"
    using assms(1) by auto
  have "length zs \<le> length (select (- 1) (sorted_patients xs))"
    using select_optimal [OF sorted_patients_sorted valid sub assms(3) low] .
  moreover have "non_overlapping (select (- 1) (sorted_patients xs))"
    using select_chain [OF sorted_patients_sorted] by (rule chain_non_overlapping)
  ultimately show ?thesis
    by (simp only: greedy_schedule_select)
qed


section \<open>Empty input\<close>

text \<open>
  C4: \<open>greedy_schedule\<close> on the empty list returns the empty list, while the
  \<^verbatim>\<open>/api/schedule\<close> handler on an empty collection answers with the error body
  and status 400 and does not produce a schedule.
\<close>

theorem schedule_empty_is_error:
  "greedy_schedule [] = [] \<and> schedule [] = (Error ''No patients'', 400)"
  by (simp add: greedy_schedule_def sorted_patients_def schedule_def)

section \<open>Touching intervals\<close>

text \<open>
  C5: the loop accepts a patient whose start equals the current \<open>last_end\<close> (the
  test is \<open>start \<ge> last_end\<close>), and on the input \<open>[(a, 1, 3), (b, 3, 5)]\<close> the
  scheduler accepts both patients.
\<close>

theorem touching_boundary_accepted:
  "loop_body (name, last_end, end) (scheduled, last_end)
     = (scheduled @ [(name, last_end, end)], end)
   \<and> greedy_schedule [(''a'', 1, 3), (''b'', 3, 5)] = [(''a'', 1, 3), (''b'', 3, 5)]"
  by (simp add: greedy_schedule_def sorted_patients_def)

section \<open>The accepted patients form a chain\<close>

text \<open>
  C2, as stated, asks for the output to be a subsequence of the input. The scheduler
  sorts before it selects, so on an input that is not sorted by end the output is in
  another order than the input: here \<open>b\<close> comes out before \<open>a\<close>.
\<close>

theorem greedy_schedule_not_subseq:
  "\<not> subseq (greedy_schedule [(''a'', 3, 5), (''b'', 1, 3)]) [(''a'', 3, 5), (''b'', 1, 3)]"
  by (simp add: greedy_schedule_def sorted_patients_def)

text \<open>
  C2, amended: for every input the output is a subsequence of the input sorted by end
  (so its entries are entries of the input, each at most as often as there), no two of
  its entries overlap, and for every pair \<open>a\<close> before \<open>b\<close> in the output, \<open>b\<close> starts no
  earlier than \<open>a\<close> ends and \<open>a\<close> ends no later than \<open>b\<close>.
\<close>

theorem greedy_schedule_chain:
  "subseq (greedy_schedule xs) (sorted_patients xs)
   \<and> mset (greedy_schedule xs) \<subseteq># mset xs
   \<and> non_overlapping (greedy_schedule xs)
   \<and> sorted_wrt (\<lambda>a b. p_start b \<ge> p_end a \<and> p_end a \<le> p_end b) (greedy_schedule xs)"
proof -
  have "non_overlapping (select (- 1) (sorted_patients xs))"
    using select_chain [OF sorted_patients_sorted] by (rule chain_non_overlapping)
  then have disjoint: "non_overlapping (greedy_schedule xs)"
    by (simp only: greedy_schedule_select)
  have "mset (greedy_schedule xs) \<subseteq># mset (sorted_patients xs)"
    by (simp only: greedy_schedule_select mset_select)
  then have "mset (greedy_schedule xs) \<subseteq># mset xs"
    by (simp only: sorted_patients_mset)
  moreover have "subseq (greedy_schedule xs) (sorted_patients xs)"
    by (simp only: greedy_schedule_select subseq_select)
  moreover have "sorted_wrt (\<lambda>a b. p_start b \<ge> p_end a \<and> p_end a \<le> p_end b) (greedy_schedule xs)"
    using select_chain [OF sorted_patients_sorted, of "- 1" xs]
    by (simp only: greedy_schedule_select)
  ultimately show ?thesis using disjoint by blast
qed


section \<open>A single patient\<close>

text \<open>
  C3: a single patient with \<open>start < end\<close> is to be accepted. The loop starts with
  \<open>last_end = -1\<close>, and \<^verbatim>\<open>add_patient\<close> admits every integer start below its end, so
  a patient who starts below \<open>-1\<close> is compared with a sentinel that is not below the
  start: added to the empty collection through \<^verbatim>\<open>add_patient\<close> (with a conversion that
  accepts JSON integers), the patient \<open>(p, -3, -2)\<close> is stored, and the scheduler returns
  the empty list for this one valid patient.
\<close>

theorem single_negative_start_rejected:
  "(- 3 :: int) < - 2
   \<and> add_patient (\<lambda>v. case v of JInt i \<Rightarrow> Some i | _ \<Rightarrow> None)
        (Dict [''name'' \<mapsto> JStr ''p'', ''start'' \<mapsto> JInt (- 3), ''end'' \<mapsto> JInt (- 2)]) []
       = ((Status ''ok'', 201), [(''p'', - 3, - 2)])
   \<and> greedy_schedule [(''p'', - 3, - 2)] = []
   \<and> schedule [(''p'', - 3, - 2)] = (Patient_list [], 200)"
  by (simp add: greedy_schedule_def sorted_patients_def schedule_def add_patient_def
      dict_get_def strip_def py_isspace_def)

section \<open>Running the scheduler on its own output\<close>

text \<open>
  C7: the scheduler is a function of its argument, and running it on its own output
  returns that output unchanged.
\<close>

theorem greedy_schedule_idempotent:
  "greedy_schedule (greedy_schedule xs) = greedy_schedule xs"
proof -
  let ?out = "greedy_schedule xs"
  have "sorted_wrt (\<lambda>a b. p_end a \<le> p_end b) ?out"
    using select_chain [OF sorted_patients_sorted, of "- 1" xs]
    by (simp only: greedy_schedule_select) (erule sorted_wrt_mono_rel [rotated], simp)
  then have "sorted (map p_end ?out)"
    by (simp add: sorted_map)
  then have "sorted_patients ?out = ?out"
    by (rule sorted_patients_id)
  then have "greedy_schedule ?out = select (- 1) ?out"
    by (simp add: greedy_schedule_select)
  also have "\<dots> = ?out"
    by (simp only: greedy_schedule_select select_idem)
  finally show ?thesis .
qed


section \<open>Cardinality\<close>

text \<open>
  C1: the output is to be a largest set of pairwise non-overlapping patients of the
  input. For the one valid patient \<open>(a, -5, -3)\<close> the scheduler returns the empty list,
  while the input itself is a valid schedule with one entry: the sentinel \<open>-1\<close> of the
  loop is above the start. (Where no start is below the sentinel the output is optimal:
  \<open>greedy_schedule_optimal\<close>.)
\<close>

theorem not_optimal_below_sentinel:
  "(- 5 :: int) < - 3
   \<and> greedy_schedule [(''a'', - 5, - 3)] = []
   \<and> non_overlapping [(''a'', - 5, - 3)]
   \<and> mset [(''a'', - 5, - 3)] \<subseteq># mset [(''a'', - 5, - 3)]
   \<and> length (greedy_schedule [(''a'', - 5, - 3)]) < length [(''a'', - 5 :: int, - 3 :: int)]"
  by (simp add: greedy_schedule_def sorted_patients_def)

section \<open>Ties in the sort\<close>

text \<open>
  C9: the sort orders by end alone and is stable: the sorted list is ascending in end, and
  for every end value \<open>k\<close> the patients with that end keep their input order. As a
  consequence, of the patients that share one slot \<open>(s, e)\<close> with \<open>s < e\<close> the scheduler
  accepts at most one, and then the earliest of them in input order.
\<close>

theorem stable_sort_earliest_duplicate:
  "sorted (map p_end (sorted_patients xs))
   \<and> filter (\<lambda>p. p_end p = k) (sorted_patients xs) = filter (\<lambda>p. p_end p = k) xs
   \<and> (s < e \<longrightarrow>
        filter (same_slot s e) (greedy_schedule xs) = [] \<or>
        filter (same_slot s e) (greedy_schedule xs) = take 1 (filter (same_slot s e) xs))"
proof -
  have "filter (same_slot s e) (greedy_schedule xs) = [] \<or>
        filter (same_slot s e) (greedy_schedule xs) = take 1 (filter (same_slot s e) xs)"
    if "s < e"
    using select_first_slot [OF sorted_patients_sorted that, of "- 1" xs]
    by (simp only: greedy_schedule_select sorted_patients_slot)
  then show ?thesis
    using sorted_patients_sorted sorted_patients_stable by blast
qed

theorem stable_sort_earliest_duplicate_witness:
  "sorted (map p_end (sorted_patients [(''a'', 2, 4), (''b'', 1, 3), (''c'', 1, 3), (''d'', 0, 3)]))
   \<and> filter (\<lambda>p. p_end p = 3) (sorted_patients [(''a'', 2, 4), (''b'', 1, 3), (''c'', 1, 3), (''d'', 0, 3)])
       = [(''b'', 1, 3), (''c'', 1, 3), (''d'', 0, 3)]
   \<and> (1::int) < 3
   \<and> filter (same_slot 1 3) (greedy_schedule [(''a'', 2, 4), (''b'', 1, 3), (''c'', 1, 3), (''d'', 0, 3)])
       = [(''b'', 1, 3)]"
  using stable_sort_earliest_duplicate
    [of "[(''a'', 2, 4), (''b'', 1, 3), (''c'', 1, 3), (''d'', 0, 3)]" 3 1 3]
  by (simp add: same_slot_def p_start_def p_end_def greedy_schedule_def sorted_patients_def)

section \<open>Generated demo data\<close>

text \<open>
  C10: whatever the random draws and whatever the collection held before,
  \<^verbatim>\<open>auto_generate\<close> leaves a collection of exactly 8 patients, reports that count, and
  every generated patient has \<open>1 \<le> start \<le> 8\<close> and \<open>start + 1 \<le> end \<le> start + 4\<close>, hence
  \<open>start < end\<close>.
\<close>

theorem auto_generate_valid:
  "length (fst (snd (auto_generate g patients))) = 8
   \<and> fst (auto_generate g patients) = (Generated ''generated'' 8, 200)
   \<and> fst (snd (auto_generate g patients)) = fst (snd (auto_generate g []))
   \<and> (\<forall>p\<in>set (fst (snd (auto_generate g patients))).
        1 \<le> p_start p \<and> p_start p \<le> 8 \<and> p_start p + 1 \<le> p_end p
        \<and> p_end p \<le> p_start p + 4 \<and> p_start p < p_end p)"
proof -
  have gen: "fst (snd (auto_generate g ps)) = fst (fold generate_one [0..<8] ([], g))" for ps
    by (simp add: auto_generate_def split: prod.splits)
  have len: "length (fst (fold generate_one [0..<8] ([], g))) = 8"
    and ok: "\<forall>p\<in>set (fst (fold generate_one [0..<8] ([], g))). generated_ok p"
    using fold_generate_one [of "[]" "[0..<8]" g] by simp_all
  have resp: "fst (auto_generate g patients) = (Generated ''generated'' 8, 200)"
    using len by (cases "fold generate_one [0..<8] ([], g)") (simp add: auto_generate_def)
  show ?thesis
    using len ok resp by (auto simp only: gen generated_ok_def)
qed

theorem auto_generate_valid_witness:
  "fst (snd (auto_generate (\<lambda>n. n) [(''old'', 5, 2)]))
     = [(''Ram1'', 2, 5), (''Gita2'', 5, 7), (''Vikas3'', 8, 9), (''Shyam4'', 3, 7),
        (''Aman5'', 6, 9), (''Rani6'', 1, 3), (''Sita7'', 4, 5), (''Pooja8'', 7, 11)]
   \<and> length (fst (snd (auto_generate (\<lambda>n. n) [(''old'', 5, 2)]))) = 8
   \<and> fst (auto_generate (\<lambda>n. n) [(''old'', 5, 2)]) = (Generated ''generated'' 8, 200)
   \<and> p_start (''Pooja8'', 7, 11) < p_end (''Pooja8'', 7, 11)"
proof -
  have run: "fst (snd (auto_generate (\<lambda>n. n) [(''old'', 5, 2)]))
     = [(''Ram1'', 2, 5), (''Gita2'', 5, 7), (''Vikas3'', 8, 9), (''Shyam4'', 3, 7),
        (''Aman5'', 6, 9), (''Rani6'', 1, 3), (''Sita7'', 4, 5), (''Pooja8'', 7, 11)]"
    by code_simp
  have "(''Pooja8'', 7, 11) \<in> set (fst (snd (auto_generate (\<lambda>n. n) [(''old'', 5, 2)])))"
    by (simp only: run) simp
  then show ?thesis
    using auto_generate_valid [of "\<lambda>n. n" "[(''old'', 5, 2)]"] run by blast
qed

section \<open>The scheduler leaves the caller's list alone\<close>

text \<open>
  C8: on the store of list objects, a call of \<^verbatim>\<open>greedy_schedule\<close> changes no list that
  existed before the call (the argument, when it is one of them, keeps its elements in
  their order), does not rebind the module-level name \<^verbatim>\<open>patients\<close>, and returns a
  new list whose value is a function of the value of the argument alone.
\<close>

theorem greedy_schedule_st_frame:
  "take (length (heap s)) (heap (snd (greedy_schedule_st a s))) = heap s
   \<and> (a < length (heap s) \<longrightarrow> heap (snd (greedy_schedule_st a s)) ! a = heap s ! a)
   \<and> patients_var (snd (greedy_schedule_st a s)) = patients_var s
   \<and> length (heap s) \<le> fst (greedy_schedule_st a s)
   \<and> fst (greedy_schedule_st a s) < length (heap (snd (greedy_schedule_st a s)))
   \<and> heap (snd (greedy_schedule_st a s)) ! fst (greedy_schedule_st a s)
       = greedy_schedule (heap s ! a)"
  by (simp add: greedy_schedule_st_eq nth_append)

theorem greedy_schedule_st_frame_witness:
  "(0::nat) < length (heap \<lparr>heap = [[(''a'', 3, 5), (''b'', 1, 3)]], patients_var = 0\<rparr>)
   \<and> heap (snd (greedy_schedule_st 0 \<lparr>heap = [[(''a'', 3, 5), (''b'', 1, 3)]], patients_var = 0\<rparr>)) ! 0
       = [(''a'', 3, 5), (''b'', 1, 3)]
   \<and> heap (snd (greedy_schedule_st 0 \<lparr>heap = [[(''a'', 3, 5), (''b'', 1, 3)]], patients_var = 0\<rparr>))
         ! fst (greedy_schedule_st 0 \<lparr>heap = [[(''a'', 3, 5), (''b'', 1, 3)]], patients_var = 0\<rparr>)
       = [(''b'', 1, 3), (''a'', 3, 5)]"
proof -
  have "greedy_schedule [(''a'', 3, 5), (''b'', 1, 3)] = [(''b'', 1, 3), (''a'', 3, 5)]"
    by (simp add: greedy_schedule_def sorted_patients_def)
  then show ?thesis
    using greedy_schedule_st_frame [of "\<lparr>heap = [[(''a'', 3, 5), (''b'', 1, 3)]], patients_var = 0\<rparr>" 0]
    by simp
qed

section \<open>Adding a patient\<close>




end
